theory Spec2Isabelle
  imports Main "HOL-Library.Sublist"
begin

section \<open>Data model\<close>

text \<open>
  A cell of the data frame is a Python string or a missing value (\<open>None\<close>/\<open>NaN\<close>, for
  which \<open>pd.isna\<close> holds): \<open>Some s\<close> is the string \<open>s\<close>, \<open>None\<close> the missing value.
  A character of a Python string is modelled by the \<open>char\<close> with the same code point, so the
  texts covered are those whose code points are below 256.

  A data frame is its list of column labels and its rows in index order, each row holding one
  cell per column (\<open>wellformed\<close>). The labels are strings, as the header cells of a parsed
  table are; they need not differ from each other and may be empty.
\<close>

type_synonym cell = "string option"
type_synonym row = "cell list"

record dataframe =
  columns :: "string list"
  rows :: "row list"

definition wellformed :: "dataframe \<Rightarrow> bool" where
  "wellformed df = list_all (\<lambda>r. length r = length (columns df)) (rows df)"

text \<open>The exceptions the modelled operations of Python can raise.\<close>

datatype py_error = ValueError | IndexError | KeyError

section \<open>Group reconstruction: \<open>fill_empty_class_codes\<close>\<close>

text \<open>
  \<open>is_empty_cell v\<close> is the test \<^verbatim>\<open>pd.isna(v) or v == ''\<close>.

  The function addresses the cells of a row by column label: \<^verbatim>\<open>df.iloc[i][col]\<close> reads, and
  \<^verbatim>\<open>df.at[i, col] = ...\<close> writes. \<open>unique_position labels l\<close> is the position such an access
  denotes. A label that no column carries raises \<open>KeyError\<close>. A label that several columns
  carry makes the read return a series instead of a cell, and the emptiness test that
  follows every read of the function raises \<open>ValueError\<close> on a series; the model raises at
  the read.

  \<open>for_loop body xs s\<close> is a \<open>for\<close> loop over \<open>xs\<close> that threads the state \<open>s\<close> and stops at
  the first exception.

  \<open>fill_row labels class_code_col prev_row cur\<close> is the body of the branch
  \<open>prev_row is not None\<close> for one row: the class code is overwritten with the previous
  row's, then, for every label of the frame in order, the cell is read and, when it is (now)
  empty, overwritten with the previous row's cell.

  \<open>fill_loop\<close> is the loop over the row indices. Every iteration reads the class code of row
  \<open>i\<close>, reads and writes row \<open>i\<close> only, and ends with \<open>prev_row = df.iloc[i].copy()\<close>,
  executed whether or not the class code was empty and after the writes to row \<open>i\<close>; so the
  model passes on the row as it stands after the iteration.

  Without a class code column every column is forward-filled on its own:
  \<^verbatim>\<open>df[col].replace('', np.nan).fillna(method='ffill')\<close>. \<open>replace_empty\<close> is the
  replacement of one cell, \<open>ffill\<close> the forward fill of a column given the last valid value
  seen, and \<open>forward_fill_frame\<close> the frame with every column so filled.

  \<open>fill_empty_class_codes class_code_col df\<close> is the function from its test
  \<open>if class_code_col:\<close> on. The resolution of the column from the header labels or from the
  user's answer precedes the test; its outcome is the argument \<open>class_code_col\<close>: the label
  of the resolved column, or \<open>None\<close>. The test is Python's truth value of that outcome, so
  \<open>None\<close> and the empty label both lead to the forward fill.
\<close>

definition is_empty_cell :: "cell \<Rightarrow> bool" where
  "is_empty_cell v = (case v of None \<Rightarrow> True | Some s \<Rightarrow> s = [])"

definition label_positions :: "string list \<Rightarrow> string \<Rightarrow> nat list" where
  "label_positions labels l = filter (\<lambda>p. labels ! p = l) [0..<length labels]"

definition unique_position :: "string list \<Rightarrow> string \<Rightarrow> py_error + nat" where
  "unique_position labels l =
     (case label_positions labels l of
        [] \<Rightarrow> Inl KeyError
      | [p] \<Rightarrow> Inr p
      | _ \<Rightarrow> Inl ValueError)"

fun for_loop :: "('a \<Rightarrow> 'b \<Rightarrow> py_error + 'b) \<Rightarrow> 'a list \<Rightarrow> 'b \<Rightarrow> py_error + 'b" where
  "for_loop body [] s = Inr s"
| "for_loop body (x # xs) s =
     (case body x s of Inl e \<Rightarrow> Inl e | Inr s' \<Rightarrow> for_loop body xs s')"

definition fill_row :: "string list \<Rightarrow> string \<Rightarrow> row \<Rightarrow> row \<Rightarrow> py_error + row" where
  "fill_row labels class_code_col prev_row cur =
     (case unique_position labels class_code_col of
        Inl e \<Rightarrow> Inl e
      | Inr g \<Rightarrow>
          for_loop
            (\<lambda>col r. case unique_position labels col of
                        Inl e \<Rightarrow> Inl e
                      | Inr p \<Rightarrow> Inr (if is_empty_cell (r ! p) then r[p := prev_row ! p] else r))
            labels (cur[g := prev_row ! g]))"

fun fill_loop :: "string list \<Rightarrow> string \<Rightarrow> row option \<Rightarrow> row list \<Rightarrow> py_error + row list" where
  "fill_loop labels class_code_col prev_row [] = Inr []"
| "fill_loop labels class_code_col prev_row (cur # rest) =
     (case unique_position labels class_code_col of
        Inl e \<Rightarrow> Inl e
      | Inr g \<Rightarrow>
          (case (if is_empty_cell (cur ! g)
                 then (case prev_row of
                         None \<Rightarrow> Inr cur
                       | Some p \<Rightarrow> fill_row labels class_code_col p cur)
                 else Inr cur) of
             Inl e \<Rightarrow> Inl e
           | Inr cur' \<Rightarrow>
               (case fill_loop labels class_code_col (Some cur') rest of
                  Inl e \<Rightarrow> Inl e
                | Inr filled \<Rightarrow> Inr (cur' # filled))))"

definition replace_empty :: "cell \<Rightarrow> cell" where
  "replace_empty v = (if v = Some [] then None else v)"

fun ffill :: "cell \<Rightarrow> cell list \<Rightarrow> cell list" where
  "ffill last_valid [] = []"
| "ffill last_valid (v # vs) =
     (case v of None \<Rightarrow> last_valid # ffill last_valid vs
              | Some x \<Rightarrow> Some x # ffill (Some x) vs)"

definition get_column :: "nat \<Rightarrow> row list \<Rightarrow> cell list" where
  "get_column c rs = map (\<lambda>r. r ! c) rs"

definition set_column :: "nat \<Rightarrow> cell list \<Rightarrow> row list \<Rightarrow> row list" where
  "set_column c vals rs = map (\<lambda>(r, v). r[c := v]) (zip rs vals)"

definition forward_fill_all :: "nat \<Rightarrow> row list \<Rightarrow> row list" where
  "forward_fill_all n rs =
     fold (\<lambda>c t. set_column c (ffill None (map replace_empty (get_column c t))) t) [0..<n] rs"

definition forward_fill_frame :: "dataframe \<Rightarrow> dataframe" where
  "forward_fill_frame df = df\<lparr>rows := forward_fill_all (length (columns df)) (rows df)\<rparr>"

definition fill_empty_class_codes :: "string option \<Rightarrow> dataframe \<Rightarrow> py_error + dataframe" where
  "fill_empty_class_codes class_code_col df =
     (case class_code_col of
        None \<Rightarrow> Inr (forward_fill_frame df)
      | Some l \<Rightarrow>
          if l = [] then Inr (forward_fill_frame df)
          else (case fill_loop (columns df) l None (rows df) of
                  Inl e \<Rightarrow> Inl e
                | Inr filled \<Rightarrow> Inr (df\<lparr>rows := filled\<rparr>)))"

section \<open>Period normalisation and schedule parsing\<close>

text \<open>
  Character classes of the regular expressions, on code points below 256: \<^verbatim>\<open>\d\<close> is
  \<open>is_digit\<close>, \<^verbatim>\<open>[a-zA-Z]\<close> is \<open>is_alpha\<close>, and \<^verbatim>\<open>\s\<close> is \<open>is_space\<close>, the
  whitespace of Python's \<open>str\<close> patterns, which is also what \<open>strip()\<close> removes. Of the
  dashes in the split pattern (hyphen, en dash, em dash) only the hyphen has a code point
  below 256.

  \<open>py_lower\<close> is \<open>lower()\<close> on texts of ASCII letters, the only texts the program applies
  it to in the functions below. \<open>py_int\<close> is \<open>int(s)\<close> on a run of decimal digits, whose
  value is \<open>digits_value\<close>; on any other string the model raises \<open>ValueError\<close>.
  \<open>py_index\<close> is indexing with a non-negative index, and \<open>dict_get\<close> is \<open>d[k]\<close> on a
  dictionary given as the list of its items in insertion order.

  Each regular expression is modelled by a matcher that follows the pattern piece by piece.
  \<^item> \<^verbatim>\<open>^([a-zA-Z]{1,3})\s\<close>: \<open>day_try n\<close> is the attempt with \<open>n\<close> letters in the
    group; \<open>match_day\<close> tries three, two and one letters, the order of the greedy
    quantifier.
  \<^item> \<^verbatim>\<open>(\d{1,2}):?(\d{2})?\s*(am|pm|AM|PM)?\<close>: \<open>time_match_at\<close> is the match at the
    start of the string and returns the three groups; every piece after the first is
    optional, so the greedy choice of each piece succeeds and nothing is backtracked.
    \<open>time_search\<close> is \<open>re.search\<close>: the match at the leftmost position that has one.
  \<^item> \<^verbatim>\<open>\d{1,2}[:.]?\d{0,2}\s*(am|pm|AM|PM)?\<close>: \<open>tok_match_at\<close> returns the matched
    text, the group of the meridiem (the empty string when unset, as \<open>re.findall\<close>
    reports it) and the remaining string; \<open>has_time_pattern\<close> is the truth value of
    \<open>re.search\<close>, and \<open>findall_times\<close> is \<open>re.findall\<close> with the pattern in an outer
    group: the successive non-overlapping matches.
  \<^item> The split pattern, \<^verbatim>\<open>\s*\<close>, a dash, \<^verbatim>\<open>\s*\<close>: \<open>delim_match_at\<close> is the match
    of a delimiter at the start of the string and returns what follows it; \<open>dash_split\<close>
    is \<open>re.split\<close>, with the part read so far as its first argument.
  \<^item> \<^verbatim>\<open>\s+\<close> replaced by one space is \<open>collapse_ws\<close>.
  \<^item> \<^verbatim>\<open>[\.\/\s\-\:]\<close> replaced by an underscore is \<open>replace_separators\<close>, and
    \<^verbatim>\<open>[^a-zA-Z0-9_]\<close> replaced by nothing is \<open>remove_non_word\<close>.

  \<open>parse_period\<close> is what \<open>extract_time_and_day\<close> computes for one cell of the period
  column: the day, the start time and the end time.
\<close>

definition is_digit :: "char \<Rightarrow> bool" where
  "is_digit c = (c \<in> set ''0123456789'')"

definition is_alpha :: "char \<Rightarrow> bool" where
  "is_alpha c = (c \<in> set ''abcdefghijklmnopqrstuvwxyzABCDEFGHIJKLMNOPQRSTUVWXYZ'')"

definition is_space :: "char \<Rightarrow> bool" where
  "is_space c = (c \<in> set [CHR 0x09, CHR 0x0A, CHR 0x0B, CHR 0x0C, CHR 0x0D,
                           CHR 0x1C, CHR 0x1D, CHR 0x1E, CHR 0x1F, CHR '' '',
                           CHR 0x85, CHR 0xA0])"

definition is_dash :: "char \<Rightarrow> bool" where
  "is_dash c = (c = CHR ''-'')"

definition lower_char :: "char \<Rightarrow> char" where
  "lower_char c =
     (case map_of (zip ''ABCDEFGHIJKLMNOPQRSTUVWXYZ'' ''abcdefghijklmnopqrstuvwxyz'') c of
        Some l \<Rightarrow> l | None \<Rightarrow> c)"

definition py_lower :: "string \<Rightarrow> string" where
  "py_lower s = map lower_char s"

definition digit_val :: "char \<Rightarrow> int" where
  "digit_val c = int (of_char c) - 48"

definition digits_value :: "string \<Rightarrow> int" where
  "digits_value s = foldl (\<lambda>a c. 10 * a + digit_val c) 0 s"

definition py_int :: "string \<Rightarrow> py_error + int" where
  "py_int s = (if s \<noteq> [] \<and> list_all is_digit s then Inr (digits_value s)
               else Inl ValueError)"

definition py_index :: "'a list \<Rightarrow> nat \<Rightarrow> py_error + 'a" where
  "py_index xs i = (if i < length xs then Inr (xs ! i) else Inl IndexError)"

definition dict_get :: "('k \<times> 'v) list \<Rightarrow> 'k \<Rightarrow> py_error + 'v" where
  "dict_get d k = (case map_of d k of None \<Rightarrow> Inl KeyError | Some v \<Rightarrow> Inr v)"

definition day_mapping :: "(string \<times> int) list" where
  "day_mapping =
     [(''mo'', 1), (''mon'', 1), (''monday'', 1), (''m'', 1),
      (''tu'', 2), (''tue'', 2), (''tues'', 2), (''tuesday'', 2), (''t'', 2),
      (''we'', 3), (''wed'', 3), (''wednesday'', 3), (''w'', 3),
      (''th'', 4), (''thu'', 4), (''thur'', 4), (''thurs'', 4), (''thursday'', 4),
      (''fr'', 5), (''fri'', 5), (''friday'', 5), (''f'', 5),
      (''sa'', 6), (''sat'', 6), (''saturday'', 6), (''s'', 6),
      (''su'', 7), (''sun'', 7), (''sunday'', 7)]"

definition day_try :: "nat \<Rightarrow> string \<Rightarrow> string option" where
  "day_try n s =
     (if n \<le> length s \<and> list_all is_alpha (take n s) \<and>
         (case drop n s of [] \<Rightarrow> False | c # _ \<Rightarrow> is_space c)
      then Some (take n s) else None)"

definition match_day :: "string \<Rightarrow> string option" where
  "match_day s =
     (case day_try 3 s of Some g \<Rightarrow> Some g
      | None \<Rightarrow> (case day_try 2 s of Some g \<Rightarrow> Some g | None \<Rightarrow> day_try 1 s))"

definition extract_day :: "cell \<Rightarrow> py_error + int option" where
  "extract_day period_str =
     (case period_str of None \<Rightarrow> Inr None
      | Some s \<Rightarrow>
          if s = [] then Inr None
          else (case match_day s of
                  None \<Rightarrow> Inr None
                | Some g \<Rightarrow>
                    let day_abbr = py_lower g in
                    if day_abbr \<in> set (map fst day_mapping)
                    then map_sum id Some (dict_get day_mapping day_abbr)
                    else (case find (\<lambda>key. prefix day_abbr key) (map fst day_mapping) of
                            Some key \<Rightarrow> map_sum id Some (dict_get day_mapping key)
                          | None \<Rightarrow> Inr None)))"

definition take_digits_1_2 :: "string \<Rightarrow> (string \<times> string) option" where
  "take_digits_1_2 s =
     (case s of
        [] \<Rightarrow> None
      | a # r \<Rightarrow>
          if \<not> is_digit a then None
          else (case r of
                  [] \<Rightarrow> Some ([a], r)
                | b # r' \<Rightarrow> if is_digit b then Some ([a, b], r') else Some ([a], r)))"

definition opt_char :: "(char \<Rightarrow> bool) \<Rightarrow> string \<Rightarrow> string \<times> string" where
  "opt_char P s = (case s of [] \<Rightarrow> ([], s) | c # r \<Rightarrow> if P c then ([c], r) else ([], s))"

definition opt_two_digits :: "string \<Rightarrow> string option \<times> string" where
  "opt_two_digits s =
     (case s of
        a # b # r \<Rightarrow> if is_digit a \<and> is_digit b then (Some [a, b], r) else (None, s)
      | _ \<Rightarrow> (None, s))"

definition digits_upto_2 :: "string \<Rightarrow> string \<times> string" where
  "digits_upto_2 s =
     (case s of
        [] \<Rightarrow> ([], s)
      | a # r \<Rightarrow>
          if \<not> is_digit a then ([], s)
          else (case r of
                  [] \<Rightarrow> ([a], r)
                | b # r' \<Rightarrow> if is_digit b then ([a, b], r') else ([a], r)))"

definition opt_ampm :: "string \<Rightarrow> string option \<times> string" where
  "opt_ampm s =
     (if take 2 s \<in> set [''am'', ''pm'', ''AM'', ''PM''] then (Some (take 2 s), drop 2 s)
      else (None, s))"

definition time_match_at :: "string \<Rightarrow> (string \<times> string option \<times> string option) option" where
  "time_match_at s =
     (case take_digits_1_2 s of
        None \<Rightarrow> None
      | Some (g1, r1) \<Rightarrow>
          let (colon, r2) = opt_char (\<lambda>c. c = CHR '':'') r1;
              (g2, r3) = opt_two_digits r2;
              r4 = dropWhile is_space r3;
              (g3, r5) = opt_ampm r4
          in Some (g1, g2, g3))"

fun time_search :: "string \<Rightarrow> (string \<times> string option \<times> string option) option" where
  "time_search [] = None"
| "time_search (c # r) =
     (case time_match_at (c # r) of Some m \<Rightarrow> Some m | None \<Rightarrow> time_search r)"

definition extract_time :: "cell \<Rightarrow> py_error + int option" where
  "extract_time time_str =
     (case time_str of None \<Rightarrow> Inr None
      | Some s \<Rightarrow>
          if s = [] then Inr None
          else (case time_search s of
                  None \<Rightarrow> Inr None
                | Some (g1, g2, g3) \<Rightarrow>
                    (case py_int g1 of
                       Inl e \<Rightarrow> Inl e
                     | Inr hour \<Rightarrow>
                         (case (case g2 of None \<Rightarrow> Inr 0
                                 | Some m \<Rightarrow> if m \<noteq> [] then py_int m else Inr 0) of
                            Inl e \<Rightarrow> Inl e
                          | Inr minute \<Rightarrow>
                              let ampm = (case g3 of None \<Rightarrow> None
                                          | Some a \<Rightarrow> if a \<noteq> [] then Some (py_lower a) else None);
                                  hour' = (if ampm = Some ''pm'' \<and> hour < 12 then hour + 12
                                           else if ampm = Some ''am'' \<and> hour = 12 then 0
                                           else hour)
                              in Inr (Some (hour' * 100 + minute))))))"

definition tok_match_at :: "string \<Rightarrow> (string \<times> string \<times> string) option" where
  "tok_match_at s =
     (case take_digits_1_2 s of
        None \<Rightarrow> None
      | Some (d1, r1) \<Rightarrow>
          let (sep, r2) = opt_char (\<lambda>c. c = CHR '':'' \<or> c = CHR ''.'') r1;
              (d2, r3) = digits_upto_2 r2;
              ws = takeWhile is_space r3;
              r4 = dropWhile is_space r3;
              (g2, r5) = opt_ampm r4;
              ap = (case g2 of None \<Rightarrow> [] | Some a \<Rightarrow> a)
          in Some (d1 @ sep @ d2 @ ws @ ap, ap, r5))"

fun has_time_pattern :: "string \<Rightarrow> bool" where
  "has_time_pattern [] = False"
| "has_time_pattern (c # r) =
     (case tok_match_at (c # r) of Some m \<Rightarrow> True | None \<Rightarrow> has_time_pattern r)"

lemma opt_ampm_len: "opt_ampm s = (g, r) \<Longrightarrow> length r \<le> length s"
  by (auto simp: opt_ampm_def split: if_splits)

lemma tok_match_at_shorter:
  assumes "tok_match_at s = Some (w, ap, rest)"
  shows "length rest < length s"
proof -
  obtain d1 r1 where t: "take_digits_1_2 s = Some (d1, r1)"
    using assms by (auto simp: tok_match_at_def split: option.splits)
  have l1: "length r1 < length s"
    using t by (auto simp: take_digits_1_2_def split: list.splits if_splits)
  obtain sep r2 where o: "opt_char (\<lambda>c. c = CHR '':'' \<or> c = CHR ''.'') r1 = (sep, r2)"
    by (cases "opt_char (\<lambda>c. c = CHR '':'' \<or> c = CHR ''.'') r1")
  have l2: "length r2 \<le> length r1"
    using o by (auto simp: opt_char_def split: list.splits if_splits)
  obtain d2 r3 where d: "digits_upto_2 r2 = (d2, r3)" by (cases "digits_upto_2 r2")
  have l3: "length r3 \<le> length r2"
    using d by (auto simp: digits_upto_2_def split: list.splits if_splits)
  obtain g2 r5 where a: "opt_ampm (dropWhile is_space r3) = (g2, r5)"
    by (cases "opt_ampm (dropWhile is_space r3)")
  have l5: "length r5 \<le> length r3"
    using opt_ampm_len[OF a] length_dropWhile_le[of is_space r3] by simp
  have "rest = r5" using assms t o d a by (simp add: tok_match_at_def Let_def)
  then show ?thesis using l1 l2 l3 l5 by simp
qed

function findall_times :: "string \<Rightarrow> (string \<times> string) list" where
  "findall_times [] = []"
| "findall_times (c # r) =
     (case tok_match_at (c # r) of
        None \<Rightarrow> findall_times r
      | Some (whole, ap, rest) \<Rightarrow> (whole, ap) # findall_times rest)"
  by pat_completeness auto
termination
  by (relation "measure length") (auto dest: tok_match_at_shorter)

definition delim_match_at :: "string \<Rightarrow> string option" where
  "delim_match_at s =
     (case dropWhile is_space s of
        [] \<Rightarrow> None
      | d # r \<Rightarrow> if is_dash d then Some (dropWhile is_space r) else None)"

lemma delim_match_at_shorter: "delim_match_at s = Some rest \<Longrightarrow> length rest < length s"
proof -
  assume a: "delim_match_at s = Some rest"
  then obtain d r where dr: "dropWhile is_space s = d # r" "rest = dropWhile is_space r"
    by (auto simp: delim_match_at_def split: list.splits if_splits)
  have "length (d # r) \<le> length s" using length_dropWhile_le[of is_space s] dr(1) by simp
  moreover have "length rest \<le> length r" using dr(2) length_dropWhile_le[of is_space r] by simp
  ultimately show ?thesis by simp
qed

function dash_split :: "string \<Rightarrow> string \<Rightarrow> string list" where
  "dash_split cur [] = [cur]"
| "dash_split cur (c # r) =
     (case delim_match_at (c # r) of
        Some rest \<Rightarrow> cur # dash_split [] rest
      | None \<Rightarrow> dash_split (cur @ [c]) r)"
  by pat_completeness auto
termination
  by (relation "measure (\<lambda>(cur, s). length s)") (auto dest: delim_match_at_shorter)

definition extract_start_end_times :: "cell \<Rightarrow> py_error + (int option \<times> int option)" where
  "extract_start_end_times period_str =
     (case period_str of None \<Rightarrow> Inr (None, None)
      | Some s \<Rightarrow>
          if s = [] then Inr (None, None)
          else
            let parts = dash_split [] s;
                time_parts = filter has_time_pattern parts;
                times = findall_times s
            in if length parts \<ge> 2 \<and> length time_parts \<ge> 2
               then (case py_index time_parts 0 of Inl e \<Rightarrow> Inl e
                     | Inr p0 \<Rightarrow>
                    (case extract_time (Some p0) of Inl e \<Rightarrow> Inl e
                     | Inr start_time \<Rightarrow>
                    (case py_index time_parts 1 of Inl e \<Rightarrow> Inl e
                     | Inr p1 \<Rightarrow>
                    (case extract_time (Some p1) of Inl e \<Rightarrow> Inl e
                     | Inr end_time \<Rightarrow> Inr (start_time, end_time)))))
               else if length times \<ge> 2
               then (case py_index times 0 of Inl e \<Rightarrow> Inl e
                     | Inr t0 \<Rightarrow>
                    (case extract_time (Some (fst t0)) of Inl e \<Rightarrow> Inl e
                     | Inr start_time \<Rightarrow>
                    (case py_index times 1 of Inl e \<Rightarrow> Inl e
                     | Inr t1 \<Rightarrow>
                    (case extract_time (Some (fst t1)) of Inl e \<Rightarrow> Inl e
                     | Inr end_time \<Rightarrow> Inr (start_time, end_time)))))
               else Inr (None, None))"

definition py_strip :: "string \<Rightarrow> string" where
  "py_strip s = rev (dropWhile is_space (rev (dropWhile is_space s)))"

function collapse_ws :: "string \<Rightarrow> string" where
  "collapse_ws [] = []"
| "collapse_ws (c # r) =
     (if is_space c then CHR '' '' # collapse_ws (dropWhile is_space r) else c # collapse_ws r)"
  by pat_completeness auto
termination
  by (relation "measure length") (auto simp: less_Suc_eq_le length_dropWhile_le)

definition sanitize_period :: "cell \<Rightarrow> string" where
  "sanitize_period period_str =
     (case period_str of None \<Rightarrow> []
      | Some s \<Rightarrow> if s = [] then [] else collapse_ws (py_strip s))"

definition replace_separators :: "string \<Rightarrow> string" where
  "replace_separators s =
     map (\<lambda>c. if c \<in> set ''./-:'' \<or> is_space c then CHR ''_'' else c) s"

definition remove_non_word :: "string \<Rightarrow> string" where
  "remove_non_word s = filter (\<lambda>c. is_alpha c \<or> is_digit c \<or> c = CHR ''_'') s"

definition convert_to_sql_period :: "cell \<Rightarrow> py_error + string option" where
  "convert_to_sql_period period_str =
     (case period_str of None \<Rightarrow> Inr None
      | Some s \<Rightarrow>
          if s = [] then Inr None
          else
            let sql_period = remove_non_word (replace_separators s)
            in if sql_period \<noteq> []
               then (case py_index sql_period 0 of Inl e \<Rightarrow> Inl e
                     | Inr ch \<Rightarrow> Inr (Some (if is_digit ch then ''p_'' @ sql_period else sql_period)))
               else Inr (Some sql_period))"

definition parse_period :: "cell \<Rightarrow> py_error + (int option \<times> int option \<times> int option)" where
  "parse_period period_str =
     (case extract_day period_str of Inl e \<Rightarrow> Inl e
      | Inr day \<Rightarrow>
     (case extract_start_end_times period_str of Inl e \<Rightarrow> Inl e
      | Inr (start_time, end_time) \<Rightarrow> Inr (day, start_time, end_time)))"


section \<open>The specification's wording, for comparison\<close>

text \<open>
  \<open>spec_group_fill\<close> follows the specification of the Group Reconstructor word for word: a
  ``last fully-filled row'' that only a row with a non-empty grouping cell replaces, by the
  row as read; a row with an empty grouping cell takes its empty cells from it and leaves it
  as it is. \<open>merge_row p c\<close> is the row \<open>c\<close> with each empty cell taken from \<open>p\<close>.
\<close>

definition merge_row :: "row \<Rightarrow> row \<Rightarrow> row" where
  "merge_row p c = map (\<lambda>(pv, cv). if is_empty_cell cv then pv else cv) (zip p c)"

fun spec_group_fill :: "nat \<Rightarrow> row option \<Rightarrow> row list \<Rightarrow> row list" where
  "spec_group_fill g last_filled [] = []"
| "spec_group_fill g last_filled (cur # rest) =
     (if is_empty_cell (cur ! g)
      then (case last_filled of None \<Rightarrow> cur | Some p \<Rightarrow> merge_row p cur)
             # spec_group_fill g last_filled rest
      else cur # spec_group_fill g (Some cur) rest)"

text \<open>
  A table of three physical rows: a group head and two continuation rows. \<open>twin_labels\<close> is
  a table whose two columns carry the same label.
\<close>

definition merged_rows :: dataframe where
  "merged_rows = \<lparr>columns = [''Class Code'', ''Period''],
      rows = [[Some ''A'', Some ''''], [Some '''', Some ''x''], [Some '''', Some '''']]\<rparr>"

definition twin_labels :: dataframe where
  "twin_labels = \<lparr>columns = [''Class Code'', ''Class Code''],
      rows = [[Some ''A'', Some ''p''], [Some '''', Some '''']]\<rparr>"

section \<open>The loop of the reconstructor, row by row\<close>

text \<open>
  When the labels are distinct and the rows have one cell per label, the loop of \<open>fill_row\<close>
  over the labels is \<open>merge_row\<close>, and \<open>fill_loop\<close> with the label at position \<open>g\<close> returns
  \<open>step_loop g\<close>, which the proofs below work with.
\<close>

definition step_row :: "nat \<Rightarrow> row option \<Rightarrow> row \<Rightarrow> row" where
  "step_row g prev cur =
     (if is_empty_cell (cur ! g)
      then (case prev of None \<Rightarrow> cur | Some p \<Rightarrow> merge_row p cur) else cur)"

fun step_loop :: "nat \<Rightarrow> row option \<Rightarrow> row list \<Rightarrow> row list" where
  "step_loop g prev [] = []"
| "step_loop g prev (cur # rest) =
     step_row g prev cur # step_loop g (Some (step_row g prev cur)) rest"

section \<open>The specification's wording of the token and of the time conversion\<close>

text \<open>
  \<open>derive_token_spec\<close> follows the specification of \<open>derive_token\<close> word for word: the
  characters period, slash, space, hyphen and colon become underscores
  (\<open>spec_replace_separators\<close>), every remaining character outside \<^verbatim>\<open>[A-Za-z0-9_]\<close> is
  removed, a non-empty token that begins with a digit is prefixed with \<open>p_\<close>, and empty or
  missing input gives no token. \<open>space_for_whitespace\<close> turns every whitespace character of
  a text into a space.
\<close>

definition spec_replace_separators :: "string \<Rightarrow> string" where
  "spec_replace_separators s = map (\<lambda>c. if c \<in> set ''./ -:'' then CHR ''_'' else c) s"

definition derive_token_spec :: "cell \<Rightarrow> string option" where
  "derive_token_spec cleaned_text =
     (case cleaned_text of None \<Rightarrow> None
      | Some s \<Rightarrow>
          if s = [] then None
          else let token = remove_non_word (spec_replace_separators s)
               in Some (if token \<noteq> [] \<and> is_digit (hd token) then ''p_'' @ token else token))"

definition space_for_whitespace :: "string \<Rightarrow> string" where
  "space_for_whitespace s = map (\<lambda>c. if is_space c then CHR '' '' else c) s"






section \<open>Properties of the reconstruction loops\<close>

lemma filter_eq_position: "filter (\<lambda>p. p = g) [0..<n] = (if g < n then [g] else [])"
  by (induction n) auto

lemma label_positions_distinct:
  assumes "distinct labels" "g < length labels"
  shows "label_positions labels (labels ! g) = [g]"
proof -
  have "filter (\<lambda>p. labels ! p = labels ! g) [0..<length labels]
        = filter (\<lambda>p. p = g) [0..<length labels]"
    using assms by (intro filter_cong) (auto simp: nth_eq_iff_index_eq)
  then show ?thesis using assms(2) by (simp add: label_positions_def filter_eq_position)
qed

lemma unique_position_distinct:
  "distinct labels \<Longrightarrow> g < length labels \<Longrightarrow> unique_position labels (labels ! g) = Inr g"
  by (simp add: unique_position_def label_positions_distinct)

lemma for_loop_append:
  "for_loop body (xs @ ys) s =
     (case for_loop body xs s of Inl e \<Rightarrow> Inl e | Inr s' \<Rightarrow> for_loop body ys s')"
  by (induction xs arbitrary: s) (auto split: sum.splits)

lemma fill_columns_inv:
  assumes "distinct labels" "length r0 = length labels"
  shows "k \<le> length labels \<Longrightarrow>
     \<exists>r. for_loop
            (\<lambda>col r. case unique_position labels col of
                        Inl e \<Rightarrow> Inl e
                      | Inr p \<Rightarrow> Inr (if is_empty_cell (r ! p) then r[p := prev ! p] else r))
            (map (\<lambda>p. labels ! p) [0..<k]) r0 = Inr r \<and>
         length r = length r0 \<and>
         (\<forall>c < length r0. r ! c = (if c < k \<and> is_empty_cell (r0 ! c) then prev ! c else r0 ! c))"
proof (induction k)
  case 0
  then show ?case by simp
next
  case (Suc k)
  then obtain r where r: "for_loop
            (\<lambda>col r. case unique_position labels col of
                        Inl e \<Rightarrow> Inl e
                      | Inr p \<Rightarrow> Inr (if is_empty_cell (r ! p) then r[p := prev ! p] else r))
            (map (\<lambda>p. labels ! p) [0..<k]) r0 = Inr r"
    and len: "length r = length r0"
    and cells: "\<forall>c < length r0. r ! c = (if c < k \<and> is_empty_cell (r0 ! c) then prev ! c else r0 ! c)"
    by auto
  have k: "k < length labels" using Suc.prems by simp
  have u: "unique_position labels (labels ! k) = Inr k"
    using assms(1) k by (rule unique_position_distinct)
  show ?case
    using r len cells u k assms(2)
    by (auto simp: for_loop_append nth_list_update less_Suc_eq)
qed

lemma fill_row_merge:
  assumes "distinct labels" "length p = length labels" "length cur = length labels"
    and "g < length labels" "is_empty_cell (cur ! g)"
  shows "fill_row labels (labels ! g) p cur = Inr (merge_row p cur)"
proof -
  let ?r0 = "cur[g := p ! g]"
  let ?body = "\<lambda>col r. case unique_position labels col of
                        Inl e \<Rightarrow> Inl e
                      | Inr q \<Rightarrow> Inr (if is_empty_cell (r ! q) then r[q := p ! q] else r)"
  have l0: "length ?r0 = length labels" using assms(3) by simp
  obtain r where r: "for_loop ?body (map (\<lambda>q. labels ! q) [0..<length labels]) ?r0 = Inr r"
    and len: "length r = length ?r0"
    and cells: "\<forall>c < length ?r0. r ! c =
        (if c < length labels \<and> is_empty_cell (?r0 ! c) then p ! c else ?r0 ! c)"
    using fill_columns_inv[OF assms(1) l0, of "length labels" p] by auto
  have lab: "map (\<lambda>q. labels ! q) [0..<length labels] = labels" by (rule map_nth)
  have fr: "fill_row labels (labels ! g) p cur = Inr r"
    using r lab unique_position_distinct[OF assms(1,4)] by (simp add: fill_row_def)
  have "r = merge_row p cur"
  proof (rule nth_equalityI)
    show "length r = length (merge_row p cur)" using len assms by (simp add: merge_row_def)
    fix i assume "i < length r"
    then have i: "i < length labels" using len l0 by simp
    show "r ! i = merge_row p cur ! i"
      using cells i assms by (auto simp: merge_row_def nth_list_update)
  qed
  then show ?thesis using fr by simp
qed

lemma length_merge_row: "length p = length c \<Longrightarrow> length (merge_row p c) = length c"
  by (simp add: merge_row_def)

lemma length_step_row:
  "(case prev of None \<Rightarrow> True | Some p \<Rightarrow> length p = length cur) \<Longrightarrow>
   length (step_row g prev cur) = length cur"
  by (auto simp: step_row_def length_merge_row split: option.splits)

lemma fill_loop_step:
  assumes d: "distinct labels" and g: "g < length labels"
  shows "list_all (\<lambda>r. length r = length labels) rs \<Longrightarrow>
   (case prev of None \<Rightarrow> True | Some p \<Rightarrow> length p = length labels) \<Longrightarrow>
   fill_loop labels (labels ! g) prev rs = Inr (step_loop g prev rs)"
proof (induction rs arbitrary: prev)
  case Nil
  then show ?case by simp
next
  case (Cons cur rest)
  have u: "unique_position labels (labels ! g) = Inr g"
    using d g by (rule unique_position_distinct)
  have eq: "(if is_empty_cell (cur ! g)
             then (case prev of None \<Rightarrow> Inr cur | Some p \<Rightarrow> fill_row labels (labels ! g) p cur)
             else Inr cur)
            = Inr (step_row g prev cur)"
    using Cons.prems d g by (auto simp: step_row_def fill_row_merge split: option.splits)
  have len: "length (step_row g prev cur) = length labels"
    using Cons.prems length_step_row[where prev=prev and cur=cur and g=g]
    by (auto split: option.splits)
  have "fill_loop labels (labels ! g) (Some (step_row g prev cur)) rest
        = Inr (step_loop g (Some (step_row g prev cur)) rest)"
    using Cons.IH[of "Some (step_row g prev cur)"] Cons.prems len by simp
  then show ?case using u eq by simp
qed

lemma merge_row_nth:
  "length p = length c \<Longrightarrow> i < length c \<Longrightarrow>
   merge_row p c ! i = (if is_empty_cell (c ! i) then p ! i else c ! i)"
  by (simp add: merge_row_def)

lemma merge_row_idem:
  "length p = length c \<Longrightarrow> merge_row p (merge_row p c) = merge_row p c"
  by (rule nth_equalityI) (auto simp: length_merge_row merge_row_nth)

lemma step_row_idem:
  assumes "case prev of None \<Rightarrow> True | Some p \<Rightarrow> length p = length cur"
  shows "step_row g prev (step_row g prev cur) = step_row g prev cur"
  using assms by (auto simp: step_row_def merge_row_idem split: option.splits)

lemma step_loop_idem:
  "list_all (\<lambda>r. length r = n) rs \<Longrightarrow>
   (case prev of None \<Rightarrow> True | Some p \<Rightarrow> length p = n) \<Longrightarrow>
   step_loop g prev (step_loop g prev rs) = step_loop g prev rs"
proof (induction rs arbitrary: prev)
  case Nil
  then show ?case by simp
next
  case (Cons cur rest)
  have len: "length (step_row g prev cur) = n"
    using Cons.prems length_step_row[where prev=prev and cur=cur and g=g] by (auto split: option.splits)
  have idem: "step_row g prev (step_row g prev cur) = step_row g prev cur"
    using Cons.prems by (intro step_row_idem) (auto split: option.splits)
  show ?case
    using Cons.IH[of "Some (step_row g prev cur)"] Cons.prems len idem by simp
qed

lemma step_loop_wf:
  "list_all (\<lambda>r. length r = n) rs \<Longrightarrow>
   (case prev of None \<Rightarrow> True | Some p \<Rightarrow> length p = n) \<Longrightarrow>
   list_all (\<lambda>r. length r = n) (step_loop g prev rs)"
proof (induction rs arbitrary: prev)
  case Nil
  then show ?case by simp
next
  case (Cons cur rest)
  have len: "length (step_row g prev cur) = n"
    using Cons.prems length_step_row[where prev=prev and cur=cur and g=g] by (auto split: option.splits)
  show ?case using Cons.IH[of "Some (step_row g prev cur)"] Cons.prems len by simp
qed

lemma length_step_loop: "length (step_loop g prev rs) = length rs"
  by (induction rs arbitrary: prev) auto


lemma length_ffill: "length (ffill l xs) = length xs"
  by (induction xs arbitrary: l) (auto split: option.splits)

lemma ffill_idem: "ffill l (ffill l xs) = ffill l xs"
  by (induction xs arbitrary: l) (auto split: option.splits)

lemma ffill_no_blank:
  "l \<noteq> Some [] \<Longrightarrow> Some [] \<notin> set xs \<Longrightarrow> Some [] \<notin> set (ffill l xs)"
  by (induction xs arbitrary: l) (auto split: option.splits)

lemma replace_empty_no_blank: "Some [] \<notin> set (map replace_empty xs)"
  by (auto simp: replace_empty_def)

lemma map_replace_empty_id: "Some [] \<notin> set xs \<Longrightarrow> map replace_empty xs = xs"
  by (induction xs) (auto simp: replace_empty_def)

lemma ffill_column_idem:
  "ffill None (map replace_empty (ffill None (map replace_empty xs))) = ffill None (map replace_empty xs)"
proof -
  have "Some [] \<notin> set (ffill None (map replace_empty xs))"
    using ffill_no_blank[OF _ replace_empty_no_blank, of None xs] by simp
  then show ?thesis by (simp add: map_replace_empty_id ffill_idem)
qed

lemma length_set_column: "length vals = length rs \<Longrightarrow> length (set_column c vals rs) = length rs"
  by (simp add: set_column_def)

lemma set_column_wf:
  "list_all (\<lambda>r. length r = n) rs \<Longrightarrow> list_all (\<lambda>r. length r = n) (set_column c vals rs)"
  by (auto simp: set_column_def list_all_iff dest: set_zip_leftD)

lemma get_set_column:
  assumes "length vals = length rs" "list_all (\<lambda>r. length r = n) rs" "c < n"
  shows "get_column c' (set_column c vals rs) = (if c' = c then vals else get_column c' rs)"
proof (rule nth_equalityI)
  show "length (get_column c' (set_column c vals rs)) = length (if c' = c then vals else get_column c' rs)"
    using assms by (simp add: get_column_def set_column_def)
  fix i assume "i < length (get_column c' (set_column c vals rs))"
  then have i: "i < length rs" using assms by (simp add: get_column_def set_column_def)
  then have "length (rs ! i) = n" using assms(2) by (simp add: list_all_length)
  then show "get_column c' (set_column c vals rs) ! i = (if c' = c then vals else get_column c' rs) ! i"
    using i assms by (simp add: get_column_def set_column_def nth_list_update)
qed

lemma length_get_column: "length (get_column c rs) = length rs"
  by (simp add: get_column_def)

lemma ffa_inv:
  assumes "list_all (\<lambda>r. length r = n) rs"
  shows "k \<le> n \<Longrightarrow>
   (let t = fold (\<lambda>c t. set_column c (ffill None (map replace_empty (get_column c t))) t) [0..<k] rs
    in length t = length rs \<and> list_all (\<lambda>r. length r = n) t \<and>
       (\<forall>c < n. get_column c t =
          (if c < k then ffill None (map replace_empty (get_column c rs)) else get_column c rs)))"
proof (induction k)
  case 0
  then show ?case using assms by simp
next
  case (Suc k)
  define t where "t = fold (\<lambda>c t. set_column c (ffill None (map replace_empty (get_column c t))) t) [0..<k] rs"
  have ih: "length t = length rs" "list_all (\<lambda>r. length r = n) t"
    "\<forall>c < n. get_column c t =
          (if c < k then ffill None (map replace_empty (get_column c rs)) else get_column c rs)"
    using Suc by (simp_all add: t_def Let_def)
  define vals where "vals = ffill None (map replace_empty (get_column k t))"
  have lv: "length vals = length t" by (simp add: vals_def length_ffill length_get_column)
  have kn: "k < n" using Suc.prems by simp
  have colk: "get_column k t = get_column k rs" using ih(3) kn by simp
  have step: "fold (\<lambda>c t. set_column c (ffill None (map replace_empty (get_column c t))) t) [0..<Suc k] rs
              = set_column k vals t"
    by (simp add: t_def vals_def)
  have "\<forall>c < n. get_column c (set_column k vals t) =
          (if c < Suc k then ffill None (map replace_empty (get_column c rs)) else get_column c rs)"
    using get_set_column[OF lv ih(2) kn] ih(3) colk by (auto simp: vals_def less_Suc_eq)
  then show ?case
    unfolding step Let_def using lv ih set_column_wf[OF ih(2)] by (simp add: length_set_column)
qed

lemma ffa_props:
  assumes "list_all (\<lambda>r. length r = n) rs"
  shows "length (forward_fill_all n rs) = length rs"
    and "list_all (\<lambda>r. length r = n) (forward_fill_all n rs)"
    and "c < n \<Longrightarrow> get_column c (forward_fill_all n rs) = ffill None (map replace_empty (get_column c rs))"
  using ffa_inv[OF assms, of n] by (simp_all add: forward_fill_all_def Let_def)

lemma rows_eqI:
  assumes "length A = length B" "list_all (\<lambda>r. length r = n) A" "list_all (\<lambda>r. length r = n) B"
    and "\<And>c. c < n \<Longrightarrow> get_column c A = get_column c B"
  shows "A = B"
proof (rule nth_equalityI)
  show "length A = length B" by fact
  fix i assume i: "i < length A"
  then have la: "length (A ! i) = n" and lb: "length (B ! i) = n"
    using assms by (simp_all add: list_all_length)
  show "A ! i = B ! i"
  proof (rule nth_equalityI)
    show "length (A ! i) = length (B ! i)" using la lb by simp
    fix c assume "c < length (A ! i)"
    then have c: "c < n" using la by simp
    have "get_column c A ! i = get_column c B ! i" using assms(4)[OF c] by simp
    then show "A ! i ! c = B ! i ! c" using i assms(1) by (simp add: get_column_def)
  qed
qed

lemma ffa_idem:
  assumes "list_all (\<lambda>r. length r = n) rs"
  shows "forward_fill_all n (forward_fill_all n rs) = forward_fill_all n rs"
proof (rule rows_eqI[where n = n])
  note p = ffa_props[OF assms]
  note q = ffa_props[OF p(2)]
  show "length (forward_fill_all n (forward_fill_all n rs)) = length (forward_fill_all n rs)"
    by (rule q(1))
  show "list_all (\<lambda>r. length r = n) (forward_fill_all n (forward_fill_all n rs))" by (rule q(2))
  show "list_all (\<lambda>r. length r = n) (forward_fill_all n rs)" by (rule p(2))
  fix c assume c: "c < n"
  show "get_column c (forward_fill_all n (forward_fill_all n rs)) = get_column c (forward_fill_all n rs)"
    using q(3)[OF c] p(3)[OF c] by (simp add: ffill_column_idem)
qed


lemma step_loop_nth:
  "i < length rs \<Longrightarrow>
   step_loop g prev rs ! i =
     step_row g (if i = 0 then prev else Some (step_loop g prev rs ! (i - 1))) (rs ! i)"
proof (induction rs arbitrary: prev i)
  case Nil
  then show ?case by simp
next
  case (Cons cur rest)
  show ?case
  proof (cases i)
    case 0
    then show ?thesis by simp
  next
    case (Suc j)
    then have j: "j < length rest" using Cons.prems by simp
    show ?thesis using Cons.IH[OF j, of "Some (step_row g prev cur)"] Suc
      by (cases j) simp_all
  qed
qed


lemma grouping_rows:
  assumes "wellformed df" "distinct (columns df)" "g < length (columns df)" "columns df ! g \<noteq> []"
  shows "fill_empty_class_codes (Some (columns df ! g)) df
         = Inr (df\<lparr>rows := step_loop g None (rows df)\<rparr>)"
  using assms fill_loop_step[OF assms(2,3), of "rows df" None]
  by (simp add: fill_empty_class_codes_def wellformed_def)

lemma forward_fill_frame_idem:
  assumes "wellformed df"
  shows "forward_fill_frame (forward_fill_frame df) = forward_fill_frame df"
  using assms by (simp add: forward_fill_frame_def wellformed_def ffa_idem)

lemma step_cell:
  assumes "list_all (\<lambda>r. length r = n) rs" "i < length rs" "c < n"
  shows "step_loop g None rs ! i ! c =
     (if 0 < i \<and> is_empty_cell (rs ! i ! g) \<and> is_empty_cell (rs ! i ! c)
      then step_loop g None rs ! (i - 1) ! c
      else rs ! i ! c)"
proof -
  let ?out = "step_loop g None rs"
  have wfo: "list_all (\<lambda>r. length r = n) ?out" using step_loop_wf[OF assms(1), of None g] by simp
  have li: "length (rs ! i) = n" using assms(1,2) by (simp add: list_all_length)
  have nth: "?out ! i = step_row g (if i = 0 then None else Some (?out ! (i - 1))) (rs ! i)"
    using step_loop_nth[OF assms(2)] .
  show ?thesis
  proof (cases "i = 0")
    case True
    then show ?thesis using nth by (simp add: step_row_def)
  next
    case False
    then have "i - 1 < length ?out" using assms(2) by (simp add: length_step_loop)
    then have lp: "length (?out ! (i - 1)) = n" using wfo by (simp add: list_all_length)
    show ?thesis using nth False li lp assms(3)
      by (simp add: step_row_def merge_row_nth)
  qed
qed

text \<open>
  A consequence for the grouping column: within a run of rows that follows a row \<open>j\<close> with a
  non-empty class code and whose own class codes are empty, every row ends with the class
  code of row \<open>j\<close>.
\<close>

lemma group_code_is_group_head_code:
  assumes "list_all (\<lambda>r. length r = n) rs" "g < n"
  shows "i < length rs \<Longrightarrow> j \<le> i \<Longrightarrow> \<not> is_empty_cell (rs ! j ! g) \<Longrightarrow>
         (\<And>k. j < k \<Longrightarrow> k \<le> i \<Longrightarrow> is_empty_cell (rs ! k ! g)) \<Longrightarrow>
         step_loop g None rs ! i ! g = rs ! j ! g"
proof (induction i)
  case 0
  then show ?case using step_cell[OF assms(1) 0(1) assms(2), of g] by simp
next
  case (Suc i)
  show ?case
  proof (cases "j = Suc i")
    case True
    then show ?thesis using step_cell[OF assms(1) Suc.prems(1) assms(2), of g] Suc.prems(3) by simp
  next
    case False
    then have ji: "j \<le> i" using Suc.prems(2) by simp
    have e: "is_empty_cell (rs ! Suc i ! g)" using Suc.prems(4)[of "Suc i"] ji by simp
    have "step_loop g None rs ! i ! g = rs ! j ! g"
      using Suc.IH ji Suc.prems by simp
    then show ?thesis using step_cell[OF assms(1) Suc.prems(1) assms(2), of g] e by simp
  qed
qed

text \<open>
  Outside the hypotheses of the theorems below the function behaves otherwise: with the
  empty label as its class code column it forward-fills, and with a class code label that
  two columns carry it raises \<open>ValueError\<close> at the first row.
\<close>

lemma empty_label_forward_fills:
  "fill_empty_class_codes (Some []) df = fill_empty_class_codes None df"
  by (simp add: fill_empty_class_codes_def)

lemma repeated_label_raises:
  "fill_empty_class_codes (Some ''Class Code'') twin_labels = Inl ValueError"
  by (simp add: fill_empty_class_codes_def twin_labels_def unique_position_def label_positions_def)

section \<open>Claims about the Group Reconstructor\<close>

text \<open>
  Claim C1, as the specification states it, fails on \<open>merged_rows\<close>, with the grouping
  column \<open>Class Code\<close>. Row 0 is the last row before row 2 whose class code is non-empty as
  read, and its \<open>Period\<close> cell is empty as read; the specification's reconstruction
  therefore leaves the \<open>Period\<close> cell of row 2 empty. The program fills it with \<open>x\<close>, the
  value of row 1, whose class code was empty as read: the previous-row copy is refreshed
  after every row, from the row as filled.
\<close>

theorem group_fill_source_is_not_the_raw_group_head:
  "\<not> is_empty_cell (rows merged_rows ! 0 ! 0) \<and>
   is_empty_cell (rows merged_rows ! 1 ! 0) \<and>
   is_empty_cell (rows merged_rows ! 2 ! 0) \<and>
   is_empty_cell (rows merged_rows ! 2 ! 1) \<and>
   spec_group_fill 0 None (rows merged_rows)
     = [[Some ''A'', Some ''''], [Some ''A'', Some ''x''], [Some ''A'', Some '''']] \<and>
   fill_empty_class_codes (Some ''Class Code'') merged_rows
     = Inr (merged_rows\<lparr>rows :=
              [[Some ''A'', Some ''''], [Some ''A'', Some ''x''], [Some ''A'', Some ''x'']]\<rparr>)"
  by (simp add: merged_rows_def fill_empty_class_codes_def fill_row_def is_empty_cell_def
      merge_row_def unique_position_def label_positions_def)

text \<open>
  Claim C1, amended: for every table whose column labels are distinct, with a grouping
  column of non-empty label, a row other than the first whose grouping cell is empty as
  read has its grouping cell and every other empty cell copied from the immediately
  preceding row as that row stands after its own processing (its filled version); every
  other cell of the table keeps the value read. Every row, whatever its grouping cell, is
  the copy source of the row after it.
\<close>

theorem group_fill_copies_from_previous_filled_row:
  assumes "wellformed df" "distinct (columns df)"
    and "g < length (columns df)" "columns df ! g \<noteq> []"
    and "i < length (rows df)" "c < length (columns df)"
  shows "\<exists>out. fill_empty_class_codes (Some (columns df ! g)) df = Inr out \<and>
     rows out ! i ! c =
       (if 0 < i \<and> is_empty_cell (rows df ! i ! g) \<and> is_empty_cell (rows df ! i ! c)
        then rows out ! (i - 1) ! c
        else rows df ! i ! c)"
proof -
  have wf: "list_all (\<lambda>r. length r = length (columns df)) (rows df)"
    using assms(1) by (simp add: wellformed_def)
  show ?thesis
    using grouping_rows[OF assms(1-4)] step_cell[OF wf assms(5,6), of g] by simp
qed

theorem group_fill_copies_from_previous_filled_row_witness:
  "wellformed merged_rows \<and> distinct (columns merged_rows) \<and>
   (0::nat) < length (columns merged_rows) \<and> columns merged_rows ! 0 = ''Class Code'' \<and>
   (2::nat) < length (rows merged_rows) \<and> (1::nat) < length (columns merged_rows) \<and>
   is_empty_cell (rows merged_rows ! 2 ! 0) \<and> is_empty_cell (rows merged_rows ! 2 ! 1) \<and>
   (\<exists>out. fill_empty_class_codes (Some ''Class Code'') merged_rows = Inr out \<and>
          rows out ! 2 ! 1 = rows out ! 1 ! 1)"
proof -
  have h: "wellformed merged_rows" "distinct (columns merged_rows)"
    "(0::nat) < length (columns merged_rows)" "columns merged_rows ! 0 \<noteq> []"
    "(2::nat) < length (rows merged_rows)" "(1::nat) < length (columns merged_rows)"
    by (simp_all add: merged_rows_def wellformed_def)
  have l: "columns merged_rows ! 0 = ''Class Code''" by (simp add: merged_rows_def)
  have e: "is_empty_cell (rows merged_rows ! 2 ! 0)" "is_empty_cell (rows merged_rows ! 2 ! 1)"
    by (simp_all add: merged_rows_def is_empty_cell_def)
  show ?thesis
    using h(1,2,3,5,6) l e group_fill_copies_from_previous_filled_row[OF h] by simp
qed

text \<open>
  Claim C2: for every table whose column labels are distinct, and whether the class code
  column is a column of the table (grouping mode, or forward fill when its label is empty)
  or is absent (forward fill), the reconstruction returns a table, and reconstructing that
  table again returns it unchanged, cell for cell.
\<close>

theorem reconstruction_idempotent:
  assumes "wellformed df" "distinct (columns df)"
    and "case class_code_col of Some l \<Rightarrow> l \<in> set (columns df) | None \<Rightarrow> True"
  shows "\<exists>out. fill_empty_class_codes class_code_col df = Inr out \<and>
               fill_empty_class_codes class_code_col out = Inr out"
proof (cases "case class_code_col of None \<Rightarrow> True | Some l \<Rightarrow> l = []")
  case True
  then have f: "fill_empty_class_codes class_code_col d = Inr (forward_fill_frame d)" for d
    by (auto simp: fill_empty_class_codes_def split: option.splits)
  show ?thesis using f forward_fill_frame_idem[OF assms(1)] by simp
next
  case False
  then obtain l where l: "class_code_col = Some l" "l \<noteq> []" by (auto split: option.splits)
  then have "l \<in> set (columns df)" using assms(3) by simp
  then obtain g where g: "g < length (columns df)" "columns df ! g = l"
    by (auto simp: in_set_conv_nth)
  let ?n = "length (columns df)"
  let ?out = "df\<lparr>rows := step_loop g None (rows df)\<rparr>"
  have wf: "list_all (\<lambda>r. length r = ?n) (rows df)" using assms(1) by (simp add: wellformed_def)
  have ne: "columns df ! g \<noteq> []" using g l by simp
  have a: "fill_empty_class_codes (Some (columns df ! g)) df = Inr ?out"
    using grouping_rows[OF assms(1,2) g(1) ne] .
  have wfo: "wellformed ?out" using step_loop_wf[OF wf, of None g] by (simp add: wellformed_def)
  have b: "fill_empty_class_codes (Some (columns ?out ! g)) ?out
           = Inr (?out\<lparr>rows := step_loop g None (rows ?out)\<rparr>)"
    using assms(2) g(1) ne by (intro grouping_rows[OF wfo]) simp_all
  have "step_loop g None (step_loop g None (rows df)) = step_loop g None (rows df)"
    using step_loop_idem[OF wf, of None g] by simp
  then have "fill_empty_class_codes (Some (columns df ! g)) ?out = Inr ?out" using b by simp
  then show ?thesis using a l g by auto
qed

theorem reconstruction_idempotent_witness:
  "wellformed merged_rows \<and> distinct (columns merged_rows) \<and>
   ''Class Code'' \<in> set (columns merged_rows) \<and>
   (\<exists>out. fill_empty_class_codes (Some ''Class Code'') merged_rows = Inr out \<and>
          fill_empty_class_codes (Some ''Class Code'') out = Inr out) \<and>
   (\<exists>out. fill_empty_class_codes None merged_rows = Inr out \<and>
          fill_empty_class_codes None out = Inr out) \<and>
   fill_empty_class_codes (Some ''Class Code'') merged_rows
     = Inr (merged_rows\<lparr>rows :=
              [[Some ''A'', Some ''''], [Some ''A'', Some ''x''], [Some ''A'', Some ''x'']]\<rparr>) \<and>
   fill_empty_class_codes None merged_rows
     = Inr (merged_rows\<lparr>rows :=
              [[Some ''A'', None], [Some ''A'', Some ''x''], [Some ''A'', Some ''x'']]\<rparr>)"
proof -
  have h: "wellformed merged_rows" "distinct (columns merged_rows)"
    by (simp_all add: merged_rows_def wellformed_def)
  have m: "''Class Code'' \<in> set (columns merged_rows)" by (simp add: merged_rows_def)
  have g: "case Some ''Class Code'' of Some l \<Rightarrow> l \<in> set (columns merged_rows) | None \<Rightarrow> True"
    using m by simp
  have n: "case (None :: string option) of Some l \<Rightarrow> l \<in> set (columns merged_rows)
           | None \<Rightarrow> True"
    by simp
  have v: "fill_empty_class_codes None merged_rows
     = Inr (merged_rows\<lparr>rows :=
              [[Some ''A'', None], [Some ''A'', Some ''x''], [Some ''A'', Some ''x'']]\<rparr>)"
    by (simp add: merged_rows_def fill_empty_class_codes_def forward_fill_frame_def
        forward_fill_all_def set_column_def get_column_def replace_empty_def)
  have w: "fill_empty_class_codes (Some ''Class Code'') merged_rows
     = Inr (merged_rows\<lparr>rows :=
              [[Some ''A'', Some ''''], [Some ''A'', Some ''x''], [Some ''A'', Some ''x'']]\<rparr>)"
    by (simp add: merged_rows_def fill_empty_class_codes_def fill_row_def is_empty_cell_def
        unique_position_def label_positions_def)
  show ?thesis
    using h m v w reconstruction_idempotent[OF h g] reconstruction_idempotent[OF h n]
    by blast
qed



section \<open>Properties of the matchers and extractors\<close>

subsection \<open>Day extraction\<close>

lemma alpha_not_space: "is_alpha c \<Longrightarrow> \<not> is_space c"
  by (auto simp: is_alpha_def is_space_def)


lemma digit_not_alpha: "is_digit c \<Longrightarrow> \<not> is_alpha c"
  by (auto simp: is_digit_def is_alpha_def)

lemma day_try_props: "day_try n s = Some g \<Longrightarrow> g = take n s \<and> length g = n \<and> list_all is_alpha g"
  by (auto simp: day_try_def split: if_splits)

lemma match_day_props:
  assumes "match_day s = Some g"
  shows "g \<noteq> [] \<and> length g \<le> 3 \<and> list_all is_alpha g"
proof -
  from assms consider "day_try 3 s = Some g" | "day_try 2 s = Some g" | "day_try 1 s = Some g"
    by (auto simp: match_day_def split: option.splits)
  then show ?thesis
    by cases (auto dest!: day_try_props)
qed

lemma length_py_lower: "length (py_lower s) = length s"
  by (simp add: py_lower_def)

lemma day_keys_prefix_closed:
  assumes "key \<in> set (map fst day_mapping)" "prefix tok key" "tok \<noteq> []" "length tok \<le> 3"
  shows "tok \<in> set (map fst day_mapping)"
proof -
  from assms(2) have t: "tok = take (length tok) key" by (auto simp: prefix_def)
  from assms(3) have "0 < length tok" by simp
  with assms(4) have "length tok = 1 \<or> length tok = 2 \<or> length tok = 3" by arith
  then have "tok = take 1 key \<or> tok = take 2 key \<or> tok = take 3 key"
    using t by metis
  moreover have "\<forall>k \<in> set (map fst day_mapping).
      take 1 k \<in> set (map fst day_mapping) \<and> take 2 k \<in> set (map fst day_mapping)
      \<and> take 3 k \<in> set (map fst day_mapping)"
    by (simp add: day_mapping_def)
  ultimately show ?thesis using assms(1) by blast
qed

lemma dict_get_map_of:
  "k \<in> set (map fst d) \<Longrightarrow> map_sum id Some (dict_get d k) = Inr (map_of d k)"
proof -
  assume "k \<in> set (map fst d)"
  then have "map_of d k \<noteq> None" by (simp add: map_of_eq_None_iff)
  then show ?thesis by (auto simp: dict_get_def)
qed

lemma extract_day_exact:
  "extract_day (Some s) =
     (case match_day s of None \<Rightarrow> Inr None | Some g \<Rightarrow> Inr (map_of day_mapping (py_lower g)))"
proof (cases "match_day s")
  case None
  then show ?thesis by (cases s) (simp_all add: extract_day_def match_day_def day_try_def)
next
  case (Some g)
  then have g: "g \<noteq> []" "length g \<le> 3" using match_day_props by auto
  have sne: "s \<noteq> []" using Some by (auto simp: match_day_def day_try_def split: option.splits if_splits)
  let ?a = "py_lower g"
  have a: "?a \<noteq> []" "length ?a \<le> 3" using g by (simp_all add: py_lower_def)
  show ?thesis
  proof (cases "?a \<in> set (map fst day_mapping)")
    case True
    then show ?thesis using Some sne dict_get_map_of[of ?a day_mapping]
      by (simp add: extract_day_def Let_def)
  next
    case False
    have nf: "find (\<lambda>key. prefix ?a key) (map fst day_mapping) = None"
    proof (rule ccontr)
      assume "find (\<lambda>key. prefix ?a key) (map fst day_mapping) \<noteq> None"
      then obtain key where "key \<in> set (map fst day_mapping)" "prefix ?a key"
        by (auto simp: find_None_iff)
      then show False using day_keys_prefix_closed[OF _ _ a] False by blast
    qed
    have "map_of day_mapping ?a = None" using False by (simp add: map_of_eq_None_iff)
    then show ?thesis using Some sne False nf by (simp add: extract_day_def Let_def)
  qed
qed

lemma match_day_S: "match_day (CHR ''S'' # CHR '' '' # rest) = Some ''S''"
  by (simp add: match_day_def day_try_def is_alpha_def is_space_def)

lemma extract_day_S: "extract_day (Some (''S '' @ rest)) = Inr (Some 6)"
  using extract_day_exact[of "''S '' @ rest"] match_day_S[of rest]
  by (simp add: py_lower_def lower_char_def day_mapping_def)

lemma long_run_no_day:
  assumes "length (takeWhile is_alpha s) > 3"
  shows "match_day s = None"
proof -
  obtain a b c d r where s: "s = a # b # c # d # r" and al: "is_alpha a" "is_alpha b" "is_alpha c" "is_alpha d"
  proof -
    from assms obtain a s1 where s1: "s = a # s1" "is_alpha a" "length (takeWhile is_alpha s1) > 2"
      by (cases s) (auto split: if_splits)
    then obtain b s2 where s2: "s1 = b # s2" "is_alpha b" "length (takeWhile is_alpha s2) > 1"
      by (cases s1) (auto split: if_splits)
    then obtain c s3 where s3: "s2 = c # s3" "is_alpha c" "length (takeWhile is_alpha s3) > 0"
      by (cases s2) (auto split: if_splits)
    then obtain d s4 where s4: "s3 = d # s4" "is_alpha d"
      by (cases s3) (auto split: if_splits)
    show ?thesis using that s1 s2 s3 s4 by blast
  qed
  show ?thesis
    using al alpha_not_space by (simp add: s match_day_def day_try_def)
qed

subsection \<open>Time extraction\<close>

lemma take_digits_Some:
  "take_digits_1_2 s = Some (g, r) \<Longrightarrow> g \<noteq> [] \<and> list_all is_digit g \<and> s = g @ r"
  by (auto simp: take_digits_1_2_def split: list.splits if_splits)

lemma take_digits_None: "take_digits_1_2 (c # r) = None \<longleftrightarrow> \<not> is_digit c"
  by (auto simp: take_digits_1_2_def split: list.splits)

lemma opt_two_digits_Some:
  "opt_two_digits s = (Some m, r) \<Longrightarrow> m \<noteq> [] \<and> list_all is_digit m"
  by (auto simp: opt_two_digits_def split: list.splits if_splits)

lemma time_match_at_groups:
  assumes "time_match_at s = Some (g1, g2, g3)"
  shows "g1 \<noteq> [] \<and> list_all is_digit g1 \<and> (\<forall>m. g2 = Some m \<longrightarrow> m \<noteq> [] \<and> list_all is_digit m)"
proof -
  obtain d r1 where t: "take_digits_1_2 s = Some (d, r1)"
    using assms by (auto simp: time_match_at_def split: option.splits)
  obtain colon r2 where o: "opt_char (\<lambda>c. c = CHR '':'') r1 = (colon, r2)"
    by (cases "opt_char (\<lambda>c. c = CHR '':'') r1")
  obtain m r3 where d: "opt_two_digits r2 = (m, r3)" by (cases "opt_two_digits r2")
  obtain a r5 where a: "opt_ampm (dropWhile is_space r3) = (a, r5)"
    by (cases "opt_ampm (dropWhile is_space r3)")
  have "g1 = d" "g2 = m" using assms t o d a by (simp_all add: time_match_at_def Let_def)
  then show ?thesis using take_digits_Some[OF t] opt_two_digits_Some[of r2 _ r3] d by auto
qed

lemma time_match_at_None: "time_match_at (c # r) = None \<longleftrightarrow> \<not> is_digit c"
proof -
  have "time_match_at (c # r) = None \<longleftrightarrow> take_digits_1_2 (c # r) = None"
    by (auto simp: time_match_at_def Let_def split: option.splits prod.splits)
  then show ?thesis by (simp add: take_digits_None)
qed

lemma time_search_groups:
  "time_search s = Some (g1, g2, g3) \<Longrightarrow>
   g1 \<noteq> [] \<and> list_all is_digit g1 \<and> (\<forall>m. g2 = Some m \<longrightarrow> m \<noteq> [] \<and> list_all is_digit m)"
proof (induction s)
  case Nil
  then show ?case by simp
next
  case (Cons c r)
  show ?case
  proof (cases "time_match_at (c # r)")
    case None
    then show ?thesis using Cons by simp
  next
    case (Some m)
    then have "time_match_at (c # r) = Some (g1, g2, g3)" using Cons.prems by simp
    then show ?thesis by (rule time_match_at_groups)
  qed
qed

lemma time_search_None: "time_search s = None \<longleftrightarrow> \<not> list_ex is_digit s"
proof (induction s)
  case Nil
  then show ?case by simp
next
  case (Cons c r)
  show ?case
  proof (cases "is_digit c")
    case True
    then have "time_match_at (c # r) \<noteq> None" by (simp add: time_match_at_None)
    then show ?thesis using True by auto
  next
    case False
    then have "time_match_at (c # r) = None" by (simp add: time_match_at_None)
    then show ?thesis using False Cons by simp
  qed
qed

lemma py_int_digits: "s \<noteq> [] \<Longrightarrow> list_all is_digit s \<Longrightarrow> \<exists>v. py_int s = Inr v"
  by (simp add: py_int_def)

lemma extract_time_digit:
  assumes "list_ex is_digit s"
  shows "\<exists>v. extract_time (Some s) = Inr (Some v)"
proof -
  have sne: "s \<noteq> []" using assms by auto
  obtain g1 g2 g3 where ts: "time_search s = Some (g1, g2, g3)"
    using assms time_search_None[of s] by (cases "time_search s") auto
  note g = time_search_groups[OF ts]
  obtain hour where h: "py_int g1 = Inr hour" using g py_int_digits by blast
  obtain minute where m: "(case g2 of None \<Rightarrow> Inr 0 | Some m \<Rightarrow> if m \<noteq> [] then py_int m else Inr 0) = Inr minute"
    using g py_int_digits by (cases g2) auto
  show ?thesis using sne ts h m by (simp add: extract_time_def Let_def)
qed

lemma extract_time_no_digit:
  "\<not> list_ex is_digit s \<Longrightarrow> extract_time (Some s) = Inr None"
  using time_search_None[of s] by (simp add: extract_time_def)

lemma extract_time_total: "\<exists>r. extract_time c = Inr r"
proof (cases c)
  case None
  then show ?thesis by (simp add: extract_time_def)
next
  case (Some s)
  then show ?thesis
    using extract_time_digit[of s] extract_time_no_digit[of s] by (cases "list_ex is_digit s") auto
qed

lemma tok_match_at_None: "tok_match_at (c # r) = None \<longleftrightarrow> \<not> is_digit c"
proof -
  have "tok_match_at (c # r) = None \<longleftrightarrow> take_digits_1_2 (c # r) = None"
    by (auto simp: tok_match_at_def Let_def split: option.splits prod.splits)
  then show ?thesis by (simp add: take_digits_None)
qed

lemma has_time_pattern_digit: "has_time_pattern s \<longleftrightarrow> list_ex is_digit s"
proof (induction s)
  case Nil
  then show ?case by simp
next
  case (Cons c r)
  show ?case
  proof (cases "is_digit c")
    case True
    then have "tok_match_at (c # r) \<noteq> None" by (simp add: tok_match_at_None)
    then show ?thesis using True by auto
  next
    case False
    then have "tok_match_at (c # r) = None" by (simp add: tok_match_at_None)
    then show ?thesis using False Cons by simp
  qed
qed

lemma tok_match_at_whole:
  assumes "tok_match_at s = Some (w, ap, rest)"
  shows "list_ex is_digit w"
proof -
  obtain d r1 where t: "take_digits_1_2 s = Some (d, r1)"
    using assms by (auto simp: tok_match_at_def split: option.splits)
  have "\<exists>tl. w = d @ tl"
    using assms t by (auto simp: tok_match_at_def Let_def split: prod.splits)
  moreover have "list_ex is_digit d" using take_digits_Some[OF t] by (cases d) auto
  ultimately show ?thesis by auto
qed

lemma findall_times_digit: "t \<in> set (findall_times s) \<Longrightarrow> list_ex is_digit (fst t)"
proof (induction s rule: findall_times.induct)
  case 1
  then show ?case by simp
next
  case (2 c r)
  show ?case
  proof (cases "tok_match_at (c # r)")
    case None
    then show ?thesis using 2 by simp
  next
    case (Some m)
    obtain w ap rest where m: "m = (w, ap, rest)" by (cases m)
    show ?thesis using 2 Some m tok_match_at_whole[of "c # r" w ap rest] by auto
  qed
qed

lemma py_index_lt: "i < length xs \<Longrightarrow> py_index xs i = Inr (xs ! i)"
  by (simp add: py_index_def)

lemma filter_time_parts_digit: "p \<in> set (filter has_time_pattern parts) \<Longrightarrow> list_ex is_digit p"
  by (simp add: has_time_pattern_digit)

lemma extract_start_end_cases:
  "extract_start_end_times c = Inr (None, None) \<or>
   (\<exists>a b. extract_start_end_times c = Inr (Some a, Some b))"
proof (cases c)
  case None
  then show ?thesis by (simp add: extract_start_end_times_def)
next
  case (Some s)
  show ?thesis
  proof (cases "s = []")
    case True
    then show ?thesis using Some by (simp add: extract_start_end_times_def)
  next
    case False
    let ?parts = "dash_split [] s"
    let ?tp = "filter has_time_pattern ?parts"
    let ?times = "findall_times s"
    show ?thesis
    proof (cases "length ?parts \<ge> 2 \<and> length ?tp \<ge> 2")
      case True
      from True have l2: "2 \<le> length ?tp" by (rule conjunct2)
      have lt: "0 < length ?tp" "1 < length ?tp" using l2 by linarith+
      have i0: "py_index ?tp 0 = Inr (?tp ! 0)" and i1: "py_index ?tp 1 = Inr (?tp ! 1)"
        by (rule py_index_lt[OF lt(1)], rule py_index_lt[OF lt(2)])
      have "?tp ! 0 \<in> set ?tp" "?tp ! 1 \<in> set ?tp"
        by (rule nth_mem[OF lt(1)], rule nth_mem[OF lt(2)])
      then have "list_ex is_digit (?tp ! 0)" "list_ex is_digit (?tp ! 1)"
        using filter_time_parts_digit by blast+
      then obtain a b where "extract_time (Some (?tp ! 0)) = Inr (Some a)"
        "extract_time (Some (?tp ! 1)) = Inr (Some b)"
        using extract_time_digit by blast
      then show ?thesis using Some False True i0 i1
        by (simp add: extract_start_end_times_def Let_def)
    next
      case nsplit: False
      show ?thesis
      proof (cases "length ?times \<ge> 2")
        case True
        have lt: "0 < length ?times" "1 < length ?times" using True by linarith+
        have i0: "py_index ?times 0 = Inr (?times ! 0)" and i1: "py_index ?times 1 = Inr (?times ! 1)"
          by (rule py_index_lt[OF lt(1)], rule py_index_lt[OF lt(2)])
        have "?times ! 0 \<in> set ?times" "?times ! 1 \<in> set ?times"
          by (rule nth_mem[OF lt(1)], rule nth_mem[OF lt(2)])
        then have "list_ex is_digit (fst (?times ! 0))" "list_ex is_digit (fst (?times ! 1))"
          using findall_times_digit by blast+
        then obtain a b where "extract_time (Some (fst (?times ! 0))) = Inr (Some a)"
          "extract_time (Some (fst (?times ! 1))) = Inr (Some b)"
          using extract_time_digit by blast
        then show ?thesis using Some False nsplit True i0 i1
          by (auto simp: extract_start_end_times_def Let_def)
      next
        case False
        then show ?thesis using Some \<open>s \<noteq> []\<close> nsplit
          by (auto simp: extract_start_end_times_def Let_def)
      qed
    qed
  qed
qed

lemma extract_start_end_fewer_than_two:
  assumes "length (filter has_time_pattern (dash_split [] s)) < 2" "length (findall_times s) < 2"
  shows "extract_start_end_times (Some s) = Inr (None, None)"
  using assms by (simp add: extract_start_end_times_def Let_def)

lemma extract_day_total: "\<exists>r. extract_day c = Inr r"
proof (cases c)
  case None
  then show ?thesis by (simp add: extract_day_def)
next
  case (Some s)
  then show ?thesis using extract_day_exact[of s] by (auto split: option.splits)
qed

lemma py_index_0: "xs \<noteq> [] \<Longrightarrow> py_index xs 0 = Inr (hd xs)"
  by (cases xs) (simp_all add: py_index_def)

lemma convert_total: "\<exists>r. convert_to_sql_period c = Inr r"
proof (cases c)
  case None
  then show ?thesis by (simp add: convert_to_sql_period_def)
next
  case (Some s)
  show ?thesis
  proof (cases "remove_non_word (replace_separators s) = []")
    case True
    then show ?thesis using Some by (simp add: convert_to_sql_period_def)
  next
    case False
    then show ?thesis using Some py_index_0[OF False]
      by (simp add: convert_to_sql_period_def Let_def)
  qed
qed






subsection \<open>Time tokens\<close>













subsection \<open>The SQL token\<close>

lemma replace_separators_spec:
  "replace_separators s = spec_replace_separators (space_for_whitespace s)"
proof -
  have sp: "is_space (CHR '' '')" by (simp add: is_space_def)
  have "\<And>c. (if c \<in> set ''./-:'' \<or> is_space c then CHR ''_'' else c) =
            (if (if is_space c then CHR '' '' else c) \<in> set ''./ -:'' then CHR ''_''
             else (if is_space c then CHR '' '' else c))"
    using sp by auto
  then show ?thesis
    by (simp add: replace_separators_def spec_replace_separators_def space_for_whitespace_def)
qed

lemma convert_is_spec_on_spaces:
  "convert_to_sql_period (Some s) = Inr (derive_token_spec (Some (space_for_whitespace s)))"
proof (cases "s = []")
  case True
  then show ?thesis
    by (simp add: convert_to_sql_period_def derive_token_spec_def space_for_whitespace_def)
next
  case False
  let ?t = "remove_non_word (replace_separators s)"
  have ne: "space_for_whitespace s \<noteq> []" using False by (simp add: space_for_whitespace_def)
  have d: "derive_token_spec (Some (space_for_whitespace s)) =
       Some (if ?t \<noteq> [] \<and> is_digit (hd ?t) then ''p_'' @ ?t else ?t)"
    using ne by (simp add: derive_token_spec_def Let_def replace_separators_spec)
  show ?thesis
  proof (cases "?t = []")
    case True
    then show ?thesis using False d by (simp add: convert_to_sql_period_def)
  next
    case nt: False
    show ?thesis using False d nt py_index_0[OF nt]
      by (simp add: convert_to_sql_period_def Let_def)
  qed
qed

lemma collapse_ws_spaces: "x \<in> set (collapse_ws s) \<Longrightarrow> is_space x \<Longrightarrow> x = CHR '' ''"
  by (induction s rule: collapse_ws.induct) (auto split: if_splits)

lemma sanitize_spaces: "x \<in> set (sanitize_period c) \<Longrightarrow> is_space x \<Longrightarrow> x = CHR '' ''"
  by (auto simp: sanitize_period_def split: option.splits if_splits dest: collapse_ws_spaces)

lemma space_for_whitespace_id:
  "(\<And>x. x \<in> set s \<Longrightarrow> is_space x \<Longrightarrow> x = CHR '' '') \<Longrightarrow> space_for_whitespace s = s"
  unfolding space_for_whitespace_def by (induction s) auto

lemma convert_is_spec_on_cleaned:
  "convert_to_sql_period (Some (sanitize_period c)) = Inr (derive_token_spec (Some (sanitize_period c)))"
  using convert_is_spec_on_spaces[of "sanitize_period c"]
    space_for_whitespace_id[of "sanitize_period c"] sanitize_spaces[of _ c] by simp


section \<open>Claims about the schedule parser\<close>

text \<open>
  Claim C3: the schedule cell \<open>Th 09:30AM - 12:15PM\<close> parses to day 4, start time 930 and
  end time 1215. The cleaner leaves this cell as it is, so the same holds after cleaning.
\<close>

theorem parse_thursday_morning:
  "parse_period (Some ''Th 09:30AM - 12:15PM'') = Inr (Some 4, Some 930, Some 1215) \<and>
   sanitize_period (Some ''Th 09:30AM - 12:15PM'') = ''Th 09:30AM - 12:15PM''"
  by code_simp




text \<open>
  Claim C5: when the parts of the dash split that hold a time pattern are fewer than two and
  the scan of the whole text finds fewer than two time tokens, start and end time are both
  absent. No cell yields one of the two without the other. The empty string and the missing
  value give no day, no start time and no end time.
\<close>

theorem single_time_token_fills_no_endpoint:
  "(length (filter has_time_pattern (dash_split [] s)) < 2 \<and> length (findall_times s) < 2
      \<longrightarrow> extract_start_end_times (Some s) = Inr (None, None))
   \<and> (extract_start_end_times c = Inr (None, None)
        \<or> (\<exists>a b. extract_start_end_times c = Inr (Some a, Some b)))
   \<and> parse_period (Some []) = Inr (None, None, None)
   \<and> parse_period None = Inr (None, None, None)"
proof -
  have e: "parse_period (Some []) = Inr (None, None, None)"
    "parse_period None = Inr (None, None, None)"
    by (simp_all add: parse_period_def extract_day_def extract_start_end_times_def)
  show ?thesis
    using extract_start_end_fewer_than_two[of s] extract_start_end_cases[of c] e by blast
qed

theorem single_time_token_fills_no_endpoint_witness:
  "length (filter has_time_pattern (dash_split [] ''Th 09:30AM'')) < 2 \<and>
   length (findall_times ''Th 09:30AM'') < 2 \<and>
   findall_times ''Th 09:30AM'' = [(''09:30AM'', ''AM'')] \<and>
   extract_start_end_times (Some ''Th 09:30AM'') = Inr (None, None)"
proof -
  have f: "findall_times ''Th 09:30AM'' = [(''09:30AM'', ''AM'')]" by code_simp
  have d: "dash_split [] ''Th 09:30AM'' = [''Th 09:30AM'']" by code_simp
  have h: "length (filter has_time_pattern (dash_split [] ''Th 09:30AM'')) < 2"
    "length (findall_times ''Th 09:30AM'') < 2"
    unfolding f d by simp_all
  show ?thesis
    using h f single_time_token_fills_no_endpoint[of "''Th 09:30AM''" None] by blast
qed

text \<open>
  Claim C7, as the specification states it, fails on a text with a tab: the pattern of the
  first substitution holds the class of all whitespace, so the tab becomes an underscore,
  where the specification's set (with the space as its only whitespace) leaves the tab to be
  removed.
\<close>

theorem derive_token_tab_becomes_underscore:
  "convert_to_sql_period (Some [CHR ''a'', CHR 0x09, CHR ''b'']) = Inr (Some ''a_b'') \<and>
   derive_token_spec (Some [CHR ''a'', CHR 0x09, CHR ''b'']) = Some ''ab''"
  by (simp add: convert_to_sql_period_def derive_token_spec_def replace_separators_def
      spec_replace_separators_def remove_non_word_def py_index_def is_space_def is_alpha_def
      is_digit_def)

text \<open>
  Claim C7, amended: for every input, period, slash, hyphen, colon and every whitespace
  character (not the space alone) are replaced with underscore; then every remaining
  character outside \<^verbatim>\<open>[A-Za-z0-9_]\<close> is removed, and a non-empty token that begins with a
  digit is prefixed with \<open>p_\<close>; empty or missing input gives no token. That is, the program
  computes the specification's token of the text with each whitespace character turned into
  a space. On a cleaned text, whose only whitespace is the space, it computes the
  specification's token as worded. The token of \<open>09:30-12:15\<close> is \<open>p_09_30_12_15\<close>.
\<close>

theorem derive_token_replaces_all_whitespace:
  "convert_to_sql_period c = Inr (derive_token_spec (map_option space_for_whitespace c)) \<and>
   convert_to_sql_period (Some (sanitize_period c))
     = Inr (derive_token_spec (Some (sanitize_period c))) \<and>
   convert_to_sql_period (Some ''09:30-12:15'') = Inr (Some ''p_09_30_12_15'')"
proof -
  have a: "convert_to_sql_period c = Inr (derive_token_spec (map_option space_for_whitespace c))"
  proof (cases c)
    case None
    then show ?thesis by (simp add: convert_to_sql_period_def derive_token_spec_def)
  next
    case (Some s)
    then show ?thesis using convert_is_spec_on_spaces[of s] by simp
  qed
  have b: "convert_to_sql_period (Some ''09:30-12:15'') = Inr (Some ''p_09_30_12_15'')"
    by (simp add: convert_to_sql_period_def replace_separators_def
        remove_non_word_def py_index_def is_space_def is_alpha_def is_digit_def)
  show ?thesis using a b convert_is_spec_on_cleaned[of c] by simp
qed

text \<open>
  Claim C8: on every cell, a string or the missing value, the SQL token deriver, the day
  extractor, the time extractor and the start and end time extractor return a value and
  raise nothing: the conversions to integers only see runs of digits, and every indexing is
  within bounds. The same holds on the output of the cleaner, which has no operation that
  can fail.
\<close>

theorem parsing_core_raises_nothing:
  "(\<exists>t. convert_to_sql_period c = Inr t) \<and>
   (\<exists>d. extract_day c = Inr d) \<and>
   (\<exists>t. extract_time c = Inr t) \<and>
   (\<exists>se. extract_start_end_times c = Inr se) \<and>
   (\<exists>r. parse_period c = Inr r) \<and>
   (\<exists>t. convert_to_sql_period (Some (sanitize_period c)) = Inr t) \<and>
   (\<exists>r. parse_period (Some (sanitize_period c)) = Inr r)"
proof -
  have se: "\<exists>se. extract_start_end_times x = Inr se" for x
    using extract_start_end_cases[of x] by auto
  have pp: "\<exists>r. parse_period x = Inr r" for x
  proof -
    obtain d where d: "extract_day x = Inr d" using extract_day_total by blast
    obtain st en where s: "extract_start_end_times x = Inr (st, en)"
      using se[of x] by (metis surj_pair)
    show ?thesis using d s by (simp add: parse_period_def)
  qed
  show ?thesis
    using convert_total extract_day_total extract_time_total se pp by blast
qed

text \<open>
  Claim C9: a token of one to three characters that is a prefix of a key of the day lexicon
  is itself a key. Hence the loop over the keys never decides the result: the extracted day
  is the exact lookup of the lowercased match, or absent. A cell that begins with \<open>S\<close> and a
  space gives day 6.
\<close>

theorem day_is_exact_lookup:
  "(tok \<noteq> [] \<and> length tok \<le> 3 \<and> key \<in> set (map fst day_mapping) \<and> prefix tok key
      \<longrightarrow> tok \<in> set (map fst day_mapping))
   \<and> extract_day (Some s) =
       (case match_day s of None \<Rightarrow> Inr None
        | Some g \<Rightarrow> Inr (map_of day_mapping (py_lower g)))
   \<and> extract_day (Some (''S '' @ rest)) = Inr (Some 6)"
  using day_keys_prefix_closed[of key tok] extract_day_exact[of s] extract_day_S[of rest]
  by blast

theorem day_is_exact_lookup_witness:
  "''th'' \<noteq> [] \<and> length ''th'' \<le> 3 \<and> ''thursday'' \<in> set (map fst day_mapping) \<and>
   prefix ''th'' ''thursday'' \<and> ''th'' \<in> set (map fst day_mapping) \<and>
   extract_day (Some ''S 9AM - 10AM'') = Inr (Some 6)"
proof -
  have h: "''th'' \<noteq> [] \<and> length ''th'' \<le> 3 \<and> ''thursday'' \<in> set (map fst day_mapping) \<and>
           prefix ''th'' ''thursday''"
    by (simp add: day_mapping_def)
  note t = day_is_exact_lookup[of "''th''" "''thursday''" "''S 9AM - 10AM''" "''9AM - 10AM''"]
  show ?thesis
    using h t[THEN conjunct1] t[THEN conjunct2, THEN conjunct2] by simp
qed

text \<open>
  Claim C10: a cell whose leading run of letters is longer than three characters has no day,
  although longer names such as \<open>thur\<close> and \<open>monday\<close> are keys of the lexicon.
\<close>

theorem long_letter_run_gives_no_day:
  assumes "3 < length (takeWhile is_alpha s)"
  shows "extract_day (Some s) = Inr None"
  using extract_day_exact[of s] long_run_no_day[OF assms] by simp

theorem long_letter_run_gives_no_day_witness:
  "3 < length (takeWhile is_alpha ''Thur 09:30AM - 12:15PM'') \<and>
   3 < length (takeWhile is_alpha ''Monday 9AM - 10AM'') \<and>
   extract_day (Some ''Thur 09:30AM - 12:15PM'') = Inr None \<and>
   extract_day (Some ''Monday 9AM - 10AM'') = Inr None \<and>
   ''thur'' \<in> set (map fst day_mapping) \<and> ''monday'' \<in> set (map fst day_mapping)"
proof -
  have h: "3 < length (takeWhile is_alpha ''Thur 09:30AM - 12:15PM'')"
    "3 < length (takeWhile is_alpha ''Monday 9AM - 10AM'')"
    by (simp_all add: is_alpha_def)
  have k: "''thur'' \<in> set (map fst day_mapping)" "''monday'' \<in> set (map fst day_mapping)"
    by (simp_all add: day_mapping_def)
  show ?thesis
    using h k long_letter_run_gives_no_day[OF h(1)] long_letter_run_gives_no_day[OF h(2)]
    by simp
qed

end
